theory Spec2Isabelle
  imports Main
begin

section \<open>Data model of the duty rotation (src/main.py)\<close>

text \<open>
  A \<^verbatim>\<open>datetime.date\<close> is represented by its proleptic Gregorian ordinal
  (\<^verbatim>\<open>date.toordinal()\<close>): comparison of dates is comparison of ordinals and
  \<^verbatim>\<open>d + timedelta(days=7)\<close> is \<open>d + 7\<close>, which raises \<^verbatim>\<open>OverflowError\<close> when the
  result lies beyond \<^verbatim>\<open>date.max\<close> (9999-12-31, ordinal 3652059).

  The state file keeps dates as ISO strings. Every date string in it is written by a
  handler as \<^verbatim>\<open>isoformat()\<close> of a parsed date, so \<^verbatim>\<open>parse_date\<close> on a stored
  string returns the date that was stored, and \<^verbatim>\<open>isoformat\<close> is one-to-one: the record
  below holds the parsed dates, and dictionaries keyed by an ISO string or by
  \<^verbatim>\<open>str(user_id)\<close> are maps keyed by the date or by the id.
\<close>

type_synonym date = int

definition MAXORDINAL :: int where
  "MAXORDINAL = 3652059"

text \<open>A member is the dictionary \<^verbatim>\<open>{"id": ..., "label": ...}\<close>.\<close>

record member =
  m_id :: int
  m_label :: string

text \<open>An interval is the dictionary \<^verbatim>\<open>{"from": ..., "to": ...}\<close>.\<close>

record range =
  r_from :: date
  r_to :: date

record state =
  start_date :: date
  members :: "member list"
  penalties :: "int \<rightharpoonup> int"
  overrides :: "date \<rightharpoonup> int"
  global_holidays :: "range list"
  away_ranges :: "int \<rightharpoonup> range list"
  notify_chats :: "int list"

datatype error = OverflowError | IndexError | ZeroDivisionError | KeyError

section \<open>Helpers\<close>

text \<open>\<^verbatim>\<open>get_member_by_id\<close>: the first member of the list with that id, or None.\<close>

definition get_member_by_id :: "int \<Rightarrow> state \<Rightarrow> member option" where
  "get_member_by_id user_id st = find (\<lambda>m. m_id m = user_id) (members st)"

text \<open>\<^verbatim>\<open>ensure_penalty_entry\<close>: \<^verbatim>\<open>state["penalties"].setdefault(pid, 0)\<close>.\<close>

definition ensure_penalty_entry :: "int \<Rightarrow> state \<Rightarrow> state" where
  "ensure_penalty_entry user_id st =
     (case penalties st user_id of
        None \<Rightarrow> st\<lparr>penalties := (penalties st)(user_id \<mapsto> 0)\<rparr>
      | Some _ \<Rightarrow> st)"

definition day_in_range :: "date \<Rightarrow> range \<Rightarrow> bool" where
  "day_in_range d r = (r_from r \<le> d \<and> d \<le> r_to r)"

definition is_global_holiday :: "date \<Rightarrow> state \<Rightarrow> bool" where
  "is_global_holiday d st = list_ex (day_in_range d) (global_holidays st)"

definition is_member_away_on :: "int \<Rightarrow> date \<Rightarrow> state \<Rightarrow> bool" where
  "is_member_away_on user_id d st =
     (let ranges = (case away_ranges st user_id of None \<Rightarrow> [] | Some rs \<Rightarrow> rs)
      in list_ex (day_in_range d) ranges)"

section \<open>The rotation resolver: \<^verbatim>\<open>get_duty_member\<close>\<close>

text \<open>
  The inner loop of \<^verbatim>\<open>get_duty_member\<close> (step 3, the search for the first member who
  is not away). \<open>pos\<close>, \<open>idx\<close> and \<open>tried\<close> are the source's variables; the result is
  the pair \<open>(assigned_member, pos)\<close> when the loop is left. \<^verbatim>\<open>members[idx]\<close> raises
  \<^verbatim>\<open>IndexError\<close> out of range.
\<close>

function scan :: "state \<Rightarrow> date \<Rightarrow> nat \<Rightarrow> nat \<Rightarrow> nat \<Rightarrow> error + (member option \<times> nat)" where
  "scan st current pos idx tried =
     (if tried < length (members st) then
        (if idx < length (members st) then
           (let candidate = members st ! idx in
            if \<not> is_member_away_on (m_id candidate) current st
            then Inr (Some candidate, (idx + 1) mod length (members st))
            else scan st current pos ((idx + 1) mod length (members st)) (tried + 1))
         else Inl IndexError)
      else Inr (None, pos))"
  by pat_completeness auto
termination
  by (relation "measure (\<lambda>(st, current, pos, idx, tried). length (members st) - tried)") auto

declare scan.simps [simp del]

text \<open>
  One pass through the body of the outer loop, up to the test \<^verbatim>\<open>current == day\<close>:
  holiday, then override, then the scan. The result is \<open>(assigned_member, pos)\<close>.
\<close>

definition cycle :: "state \<Rightarrow> date \<Rightarrow> nat \<Rightarrow> error + (member option \<times> nat)" where
  "cycle st current pos =
     (if is_global_holiday current st then Inr (None, pos)
      else
        (case overrides st current of
           Some override_id \<Rightarrow>
             (if length (members st) = 0 then Inl ZeroDivisionError
              else Inr (get_member_by_id override_id st, (pos + 1) mod length (members st)))
         | None \<Rightarrow> scan st current pos pos 0))"

text \<open>The outer loop \<^verbatim>\<open>while current <= day\<close>.\<close>

function replay :: "state \<Rightarrow> date \<Rightarrow> date \<Rightarrow> nat \<Rightarrow> error + member option" where
  "replay st day current pos =
     (if current \<le> day then
        (case cycle st current pos of
           Inl e \<Rightarrow> Inl e
         | Inr (assigned_member, pos') \<Rightarrow>
             if current = day then Inr assigned_member
             else if current + 7 > MAXORDINAL then Inl OverflowError
             else replay st day (current + 7) pos')
      else Inr None)"
  by pat_completeness auto
termination
  by (relation "measure (\<lambda>(st, day, current, pos). nat (day - current + 1))") auto

declare replay.simps [simp del]

definition get_duty_member :: "date \<Rightarrow> state \<Rightarrow> error + member option" where
  "get_duty_member day st =
     (if members st = [] then Inr None
      else if day < start_date st then Inr None
      else replay st day (start_date st) 0)"

section \<open>The swap coordinator: \<^verbatim>\<open>volunteer_callback\<close>\<close>

text \<open>
  A displayed name is \<^verbatim>\<open>member["label"]\<close> when the id is found among the members and
  the text \<^verbatim>\<open>f"id {user_id}"\<close> otherwise.
\<close>

datatype name = Label string | RawId int

definition display_name :: "int \<Rightarrow> state \<Rightarrow> name" where
  "display_name user_id st =
     (case get_member_by_id user_id st of Some m \<Rightarrow> Label (m_label m) | None \<Rightarrow> RawId user_id)"

text \<open>
  The three messages the callback can edit into the chat: the volunteer is not in the
  list; somebody already agreed for that date; the replacement was recorded (date,
  absent member's name, volunteer's label).
\<close>

datatype reply =
    NotInList
  | AlreadyAgreed date name
  | Replaced date name string

text \<open>
  \<^verbatim>\<open>volunteer_callback\<close> on the callback data \<^verbatim>\<open>volunteer|<date>|<absent_id>\<close> pressed by
  the user \<open>volunteer_id\<close>. The handler loads the state file, and the state returned
  here is the content of the file when the handler ends: the branches that return early
  never call \<^verbatim>\<open>save_state\<close>. \<^verbatim>\<open>state["penalties"][pid] += 1\<close> raises
  \<^verbatim>\<open>KeyError\<close> on a missing key.
\<close>

definition volunteer_callback ::
  "state \<Rightarrow> date \<Rightarrow> int \<Rightarrow> int \<Rightarrow> error + (reply \<times> state)" where
  "volunteer_callback st duty_date absent_id volunteer_id =
     (case get_member_by_id volunteer_id st of
        None \<Rightarrow> Inr (NotInList, st)
      | Some volunteer_member \<Rightarrow>
          (case overrides st duty_date of
             Some already_id \<Rightarrow> Inr (AlreadyAgreed duty_date (display_name already_id st), st)
           | None \<Rightarrow>
               (let st1 = st\<lparr>overrides := (overrides st)(duty_date \<mapsto> volunteer_id)\<rparr>;
                    st2 = ensure_penalty_entry absent_id st1
                in (case penalties st2 absent_id of
                      None \<Rightarrow> Inl KeyError
                    | Some p \<Rightarrow>
                        (let st3 = st2\<lparr>penalties := (penalties st2)(absent_id \<mapsto> p + 1)\<rparr>
                         in Inr (Replaced duty_date (display_name absent_id st3)
                                   (m_label volunteer_member), st3))))))"

text \<open>The count \<^verbatim>\<open>penalties.get(pid, 0)\<close> that \<^verbatim>\<open>points_handler\<close> shows.\<close>

definition penalty_count :: "state \<Rightarrow> int \<Rightarrow> int" where
  "penalty_count st user_id = (case penalties st user_id of None \<Rightarrow> 0 | Some p \<Rightarrow> p)"

section \<open>The rotation pointer between cycles\<close>

text \<open>
  The two components of a cycle's result, and the value of \<open>pos\<close> when the outer loop
  enters its \<open>k\<close>-th pass (the pass for the date \<open>start_date + 7k\<close>).
\<close>

definition next_pos :: "state \<Rightarrow> date \<Rightarrow> nat \<Rightarrow> nat" where
  "next_pos st current pos = (case cycle st current pos of Inr (_, p) \<Rightarrow> p | Inl _ \<Rightarrow> pos)"

definition assigned :: "state \<Rightarrow> date \<Rightarrow> nat \<Rightarrow> member option" where
  "assigned st current pos = (case cycle st current pos of Inr (a, _) \<Rightarrow> a | Inl _ \<Rightarrow> None)"

fun pointer_at :: "state \<Rightarrow> nat \<Rightarrow> nat" where
  "pointer_at st 0 = 0"
| "pointer_at st (Suc k) = next_pos st (start_date st + 7 * int k) (pointer_at st k)"

section \<open>Example configurations\<close>

text \<open>
  The configuration of the specification's examples: the rotation starts on
  2025-12-01 (ordinal 739586) with the members A, B, C and nothing else recorded.
\<close>

definition member_A :: member where "member_A = \<lparr>m_id = 1, m_label = ''A''\<rparr>"
definition member_B :: member where "member_B = \<lparr>m_id = 2, m_label = ''B''\<rparr>"
definition member_C :: member where "member_C = \<lparr>m_id = 3, m_label = ''C''\<rparr>"

definition rota :: "member list \<Rightarrow> state" where
  "rota ms = \<lparr>start_date = 739586, members = ms, penalties = Map.empty,
              overrides = Map.empty, global_holidays = [], away_ranges = Map.empty,
              notify_chats = []\<rparr>"

definition rota_ABC :: state where
  "rota_ABC = rota [member_A, member_B, member_C]"

text \<open>An override that names the id 99, which is not the id of any member.\<close>

definition rota_dangling :: state where
  "rota_dangling = (rota [member_A])\<lparr>overrides := [739586 \<mapsto> 99]\<rparr>"

text \<open>An override on the first date that names C, the last member of the list.\<close>

definition rota_override :: state where
  "rota_override = rota_ABC\<lparr>overrides := [739586 \<mapsto> 3]\<rparr>"

text \<open>Both members are away on the first date; from the second date on nobody is.\<close>

definition rota_all_away :: state where
  "rota_all_away = (rota [member_A, member_B])
     \<lparr>away_ranges := [1 \<mapsto> [\<lparr>r_from = 739586, r_to = 739586\<rparr>],
                      2 \<mapsto> [\<lparr>r_from = 739580, r_to = 739590\<rparr>]]\<rparr>"

text \<open>B is away on 2025-12-08 only (the specification's third example).\<close>

definition rota_B_away :: state where
  "rota_B_away = rota_ABC\<lparr>away_ranges := [2 \<mapsto> [\<lparr>r_from = 739593, r_to = 739593\<rparr>]]\<rparr>"

text \<open>2025-12-08 is a global holiday (the specification's second example).\<close>

definition rota_holiday :: state where
  "rota_holiday = rota_ABC\<lparr>global_holidays := [\<lparr>r_from = 739593, r_to = 739593\<rparr>]\<rparr>"

text \<open>The first date is a global holiday, and A is away on that date only.\<close>

definition rota_holiday_away :: state where
  "rota_holiday_away = (rota [member_A, member_B])
     \<lparr>global_holidays := [\<lparr>r_from = 739586, r_to = 739586\<rparr>],
      away_ranges := [1 \<mapsto> [\<lparr>r_from = 739586, r_to = 739586\<rparr>]]\<rparr>"

text \<open>A rotation that starts on 9999-12-27, four days before \<^verbatim>\<open>date.max\<close>.\<close>

definition rota_late :: state where
  "rota_late = (rota [member_A])\<lparr>start_date := 3652055\<rparr>"

text \<open>The state file after B volunteered for A's turn on the first date.\<close>

definition rota_swapped :: state where
  "rota_swapped = rota_ABC\<lparr>overrides := [739586 \<mapsto> 2], penalties := [1 \<mapsto> 1]\<rparr>"

section \<open>The loops never read out of range\<close>

lemma scan_total:
  "idx < length (members st) \<Longrightarrow> pos < length (members st) \<Longrightarrow>
   \<exists>a p. scan st current pos idx tried = Inr (a, p) \<and> p < length (members st)"
proof (induction st current pos idx tried rule: scan.induct)
  case (1 st current pos idx tried)
  have nxt: "(idx + 1) mod length (members st) < length (members st)"
    using "1.prems" by (intro mod_less_divisor) auto
  show ?case
  proof (cases "tried < length (members st)")
    case False
    with "1.prems" show ?thesis by (simp add: scan.simps)
  next
    case True
    note tr = True
    show ?thesis
    proof (cases "is_member_away_on (m_id (members st ! idx)) current st")
      case False
      with nxt tr "1.prems" show ?thesis
        by (simp add: scan.simps[of st current pos idx tried])
    next
      case True
      from "1.IH"[OF tr "1.prems"(1) refl _ nxt "1.prems"(2)] True
      have "\<exists>a p. scan st current pos ((idx + 1) mod length (members st)) (tried + 1) = Inr (a, p)
              \<and> p < length (members st)" by simp
      with tr True "1.prems" show ?thesis
        by (simp add: scan.simps[of st current pos idx tried])
    qed
  qed
qed

lemma cycle_total:
  assumes "members st \<noteq> []" "pos < length (members st)"
  shows "\<exists>a p. cycle st current pos = Inr (a, p) \<and> p < length (members st)"
  using assms scan_total[of pos st pos current 0]
  by (auto simp: cycle_def split: option.splits)

lemma cycle_split:
  assumes "members st \<noteq> []" "pos < length (members st)"
  shows "cycle st current pos = Inr (assigned st current pos, next_pos st current pos)"
    and "next_pos st current pos < length (members st)"
  using cycle_total[OF assms, of current] by (auto simp: assigned_def next_pos_def)

lemma pointer_at_bound: "members st \<noteq> [] \<Longrightarrow> pointer_at st k < length (members st)"
  by (induction k) (auto simp: cycle_split(2))

text \<open>
  So the only exception that \<^verbatim>\<open>get_duty_member\<close> can raise is the \<^verbatim>\<open>OverflowError\<close> of
  the date addition.
\<close>

lemma replay_errors:
  "members st \<noteq> [] \<Longrightarrow> pos < length (members st) \<Longrightarrow>
   replay st day current pos = Inl e \<Longrightarrow> e = OverflowError"
proof (induction st day current pos rule: replay.induct)
  case (1 st day current pos)
  obtain a p where cy: "cycle st current pos = Inr (a, p)" and p: "p < length (members st)"
    using cycle_total[OF "1.prems"(1,2), of current] by blast
  show ?case
  proof (cases "current < day \<and> current + 7 \<le> MAXORDINAL")
    case True
    then have "replay st day current pos = replay st day (current + 7) p"
      using cy by (simp add: replay.simps[of st day current])
    with "1.IH"[OF _ cy refl _ _ "1.prems"(1) p] True "1.prems"(3) show ?thesis by simp
  next
    case False
    with cy "1.prems"(3) show ?thesis
      by (simp add: replay.simps[of st day current] split: if_splits)
  qed
qed

lemma get_duty_member_errors: "get_duty_member day st = Inl e \<Longrightarrow> e = OverflowError"
  using replay_errors[of st 0 day "start_date st" e]
  by (cases "members st = []") (auto simp: get_duty_member_def split: if_splits)

section \<open>The outer loop on a cadence date\<close>

text \<open>
  On the date \<open>start_date + 7k\<close> the loop returns what its \<open>k\<close>-th pass assigns, computed
  from the pointer that the earlier passes left.
\<close>

lemma replay_cadence:
  "members st \<noteq> [] \<Longrightarrow> start_date st + 7 * int (j + n) \<le> MAXORDINAL \<Longrightarrow>
   replay st (start_date st + 7 * int (j + n)) (start_date st + 7 * int j) (pointer_at st j)
     = Inr (assigned st (start_date st + 7 * int (j + n)) (pointer_at st (j + n)))"
proof (induction n arbitrary: j)
  case 0
  then show ?case
    using cycle_split(1)[OF "0"(1) pointer_at_bound[OF "0"(1), of j], of "start_date st + 7 * int j"]
    by (simp add: replay.simps[of st _ "start_date st + 7 * int j"])
next
  case (Suc n)
  define c where "c = start_date st + 7 * int j"
  define day where "day = start_date st + 7 * int (j + Suc n)"
  have c7: "c + 7 = start_date st + 7 * int (Suc j)" by (simp add: c_def)
  have day': "day = start_date st + 7 * int (Suc j + n)" by (simp add: day_def)
  have lt: "c < day" "c + 7 \<le> MAXORDINAL"
    using Suc.prems(2) by (simp_all add: c_def day_def)
  have IH: "replay st day (c + 7) (pointer_at st (Suc j))
     = Inr (assigned st day (pointer_at st (Suc j + n)))"
    unfolding c7 day' using Suc.IH[of "Suc j"] Suc.prems by simp
  have cy: "cycle st c (pointer_at st j) = Inr (assigned st c (pointer_at st j), pointer_at st (Suc j))"
    using cycle_split(1)[OF Suc.prems(1) pointer_at_bound[OF Suc.prems(1), of j], of c]
    by (simp add: c_def)
  have "replay st day c (pointer_at st j) = replay st day (c + 7) (pointer_at st (Suc j))"
    using lt cy by (subst replay.simps) simp
  with IH show ?case by (simp add: c_def day_def)
qed

lemma get_duty_member_cadence:
  assumes "members st \<noteq> []" "start_date st + 7 * int k \<le> MAXORDINAL"
  shows "get_duty_member (start_date st + 7 * int k) st
         = Inr (assigned st (start_date st + 7 * int k) (pointer_at st k))"
  using replay_cadence[of st 0 k] assms by (simp add: get_duty_member_def)

section \<open>The scan for the first member who is not away\<close>

lemma not_away_without_ranges: "away_ranges st = Map.empty \<Longrightarrow> \<not> is_member_away_on u d st"
  by (simp add: is_member_away_on_def)

lemma scan_first_present:
  assumes "idx < length (members st)" "tried < length (members st)"
    "\<not> is_member_away_on (m_id (members st ! idx)) current st"
  shows "scan st current pos idx tried
         = Inr (Some (members st ! idx), (idx + 1) mod length (members st))"
  using assms by (simp add: scan.simps[of st current pos idx tried])

lemma cycle_plain:
  assumes "global_holidays st = []" "away_ranges st = Map.empty" "overrides st = Map.empty"
    "pos < length (members st)"
  shows "cycle st current pos = Inr (Some (members st ! pos), (pos + 1) mod length (members st))"
proof -
  have "0 < length (members st)" using assms(4) by auto
  from scan_first_present[OF assms(4) this, of current pos] show ?thesis
    using assms(1-3) not_away_without_ranges[of st]
    by (simp add: cycle_def is_global_holiday_def)
qed

lemma pointer_at_plain:
  assumes "members st \<noteq> []" "global_holidays st = []" "away_ranges st = Map.empty" "overrides st = Map.empty"
  shows "pointer_at st k = k mod length (members st)"
proof (induction k)
  case 0
  then show ?case by simp
next
  case (Suc k)
  have "k mod length (members st) < length (members st)" using assms(1) by simp
  from cycle_plain[OF assms(2-4) this] Suc show ?case
    by (simp add: next_pos_def mod_Suc_eq)
qed

lemma scan_all_away:
  "\<forall>m \<in> set (members st). is_member_away_on (m_id m) current st \<Longrightarrow>
   idx < length (members st) \<Longrightarrow> scan st current pos idx tried = Inr (None, pos)"
proof (induction st current pos idx tried rule: scan.induct)
  case (1 st current pos idx tried)
  have nxt: "(idx + 1) mod length (members st) < length (members st)"
    using "1.prems" by (intro mod_less_divisor) auto
  have away: "is_member_away_on (m_id (members st ! idx)) current st"
    using "1.prems" by simp
  show ?case
  proof (cases "tried < length (members st)")
    case False
    then show ?thesis by (simp add: scan.simps[of st current pos idx tried])
  next
    case True
    from "1.IH"[OF True "1.prems"(2) refl _ "1.prems"(1) nxt] away
    have "scan st current pos ((idx + 1) mod length (members st)) (tried + 1) = Inr (None, pos)"
      by simp
    with True away "1.prems"(2) show ?thesis
      by (simp add: scan.simps[of st current pos idx tried])
  qed
qed

lemma scan_found:
  "scan st current pos idx tried = Inr (Some m, p) \<Longrightarrow> idx < length (members st) \<Longrightarrow>
   \<exists>j. tried + j < length (members st) \<and>
       m = members st ! ((idx + j) mod length (members st)) \<and>
       \<not> is_member_away_on (m_id m) current st \<and>
       p = ((idx + j) mod length (members st) + 1) mod length (members st) \<and>
       (\<forall>l<j. is_member_away_on (m_id (members st ! ((idx + l) mod length (members st)))) current st)"
proof (induction st current pos idx tried arbitrary: m p rule: scan.induct)
  case (1 st current pos idx tried)
  let ?n = "length (members st)"
  have nxt: "(idx + 1) mod ?n < ?n"
    using "1.prems" by (intro mod_less_divisor) auto
  have tr: "tried < ?n"
    using "1.prems" by (simp add: scan.simps[of st current pos idx tried] split: if_splits)
  show ?case
  proof (cases "is_member_away_on (m_id (members st ! idx)) current st")
    case False
    with tr "1.prems" have "m = members st ! idx" "p = (idx + 1) mod ?n"
      by (simp_all add: scan.simps[of st current pos idx tried])
    with False tr "1.prems"(2) show ?thesis
      by (intro exI[of _ 0]) simp
  next
    case True
    with tr "1.prems" have rec: "scan st current pos ((idx + 1) mod ?n) (tried + 1) = Inr (Some m, p)"
      by (simp add: scan.simps[of st current pos idx tried])
    from "1.IH"[OF tr "1.prems"(2) refl _ rec nxt] True
    obtain j where j: "tried + 1 + j < ?n"
      "m = members st ! (((idx + 1) mod ?n + j) mod ?n)"
      "\<not> is_member_away_on (m_id m) current st"
      "p = (((idx + 1) mod ?n + j) mod ?n + 1) mod ?n"
      "\<forall>l<j. is_member_away_on (m_id (members st ! (((idx + 1) mod ?n + l) mod ?n))) current st"
      by auto
    have shift: "(Suc idx mod ?n + l) mod ?n = Suc (idx + l) mod ?n" for l
      by (simp add: mod_add_left_eq)
    have "\<forall>l<Suc j. is_member_away_on (m_id (members st ! ((idx + l) mod ?n))) current st"
    proof (intro allI impI)
      fix l assume "l < Suc j"
      show "is_member_away_on (m_id (members st ! ((idx + l) mod ?n))) current st"
      proof (cases l)
        case 0
        with True "1.prems"(2) show ?thesis by simp
      next
        case (Suc l')
        with \<open>l < Suc j\<close> j(5) show ?thesis by (simp add: shift)
      qed
    qed
    with j show ?thesis
      by (intro exI[of _ "Suc j"]) (simp add: shift)
  qed
qed

section \<open>Properties of the resolver\<close>

text \<open>
  C7: \<^verbatim>\<open>get_duty_member\<close> returns None when the target date is before the start date,
  and returns None when the member list is empty. The function only returns a value: it
  has no other effect.
\<close>

theorem resolve_none_before_start_or_empty:
  "day < start_date st \<or> members st = [] \<Longrightarrow> get_duty_member day st = Inr None"
  by (auto simp: get_duty_member_def)

theorem resolve_none_before_start_or_empty_witness:
  "get_duty_member 739585 rota_ABC = Inr None \<and> get_duty_member 739586 (rota []) = Inr None"
  using resolve_none_before_start_or_empty[of 739585 rota_ABC]
    resolve_none_before_start_or_empty[of 739586 "rota []"]
  by (simp add: rota_ABC_def rota_def)

text \<open>
  C1: with at least one member and no holidays, no absences and no overrides, the
  resolver on the cadence date \<open>start_date + 7k\<close> returns \<open>members[k mod N]\<close>. With
  the start date 2025-12-01 and the members A, B, C it returns A, B, C, A on 2025-12-01,
  2025-12-08, 2025-12-15 and 2025-12-22.
\<close>

theorem rotation_cycles_in_order:
  assumes "members st \<noteq> []" "global_holidays st = []" "away_ranges st = Map.empty"
    "overrides st = Map.empty" "start_date st + 7 * int k \<le> MAXORDINAL"
  shows "get_duty_member (start_date st + 7 * int k) st
         = Inr (Some (members st ! (k mod length (members st))))"
proof -
  have "k mod length (members st) < length (members st)" using assms(1) by simp
  from cycle_plain[OF assms(2-4) this]
  show ?thesis
    using get_duty_member_cadence[OF assms(1) assms(5)] pointer_at_plain[OF assms(1-4), of k]
    by (simp add: assigned_def)
qed

theorem rotation_cycles_in_order_witness:
  "get_duty_member 739586 rota_ABC = Inr (Some member_A) \<and>
   get_duty_member 739593 rota_ABC = Inr (Some member_B) \<and>
   get_duty_member 739600 rota_ABC = Inr (Some member_C) \<and>
   get_duty_member 739607 rota_ABC = Inr (Some member_A)"
  using rotation_cycles_in_order[of rota_ABC 0] rotation_cycles_in_order[of rota_ABC 1]
    rotation_cycles_in_order[of rota_ABC 2] rotation_cycles_in_order[of rota_ABC 3]
  by (simp add: rota_ABC_def rota_def MAXORDINAL_def)

text \<open>
  C2, as amended: when the override of a cadence date names an id that is not the id of
  any member, the resolver returns None on that date: \<^verbatim>\<open>get_member_by_id\<close> finds
  nothing and its None is what is assigned. It does not report the stored id.
\<close>

theorem dangling_override_resolves_to_none:
  assumes "start_date st + 7 * int k \<le> MAXORDINAL"
    and "overrides st (start_date st + 7 * int k) = Some i"
    and "get_member_by_id i st = None"
  shows "get_duty_member (start_date st + 7 * int k) st = Inr None"
proof (cases "members st = []")
  case True
  then show ?thesis by (simp add: get_duty_member_def)
next
  case False
  with assms show ?thesis
    using get_duty_member_cadence[OF False assms(1)]
    by (simp add: assigned_def cycle_def)
qed

theorem dangling_override_resolves_to_none_witness:
  "get_duty_member 739586 rota_dangling = Inr None"
  using dangling_override_resolves_to_none[of rota_dangling 0 99]
  by (simp add: rota_dangling_def rota_def member_A_def get_member_by_id_def MAXORDINAL_def)

text \<open>
  The claim as stated fails: the date has an override, is not a holiday, the id is
  dangling, and the resolver reports None.
\<close>

theorem dangling_override_counterexample:
  "overrides rota_dangling 739586 = Some 99 \<and> get_member_by_id 99 rota_dangling = None \<and>
   \<not> is_global_holiday 739586 rota_dangling \<and>
   get_duty_member 739586 rota_dangling = Inr None"
  by (simp add: rota_dangling_def rota_def member_A_def get_member_by_id_def get_duty_member_def
      replay.simps cycle_def is_global_holiday_def)

text \<open>
  C3: with a non-empty member list, on a date that has an override and is not inside a
  global holiday, the cycle moves the rotation pointer to \<open>(pos + 1) mod len(members)\<close>,
  whichever id the override names; so the pointer of the pass after a cadence date with
  an override is one past the pointer of that pass.
\<close>

theorem override_consumes_one_turn:
  assumes "members st \<noteq> []" "\<not> is_global_holiday D st" "overrides st D = Some i"
  shows "cycle st D pos = Inr (get_member_by_id i st, (pos + 1) mod length (members st)) \<and>
         (\<forall>k. D = start_date st + 7 * int k \<longrightarrow>
              pointer_at st (Suc k) = (pointer_at st k + 1) mod length (members st))"
  using assms by (auto simp: cycle_def next_pos_def)

theorem override_consumes_one_turn_witness:
  "cycle rota_override 739586 0 = Inr (Some member_C, 1) \<and>
   pointer_at rota_override 1 = 1 \<and>
   get_duty_member 739593 rota_override = Inr (Some member_B)"
proof -
  have "cycle rota_override 739586 0 = Inr (Some member_C, 1)"
    and "pointer_at rota_override 1 = 1"
    using override_consumes_one_turn[of rota_override 739586 3 0]
    by (simp_all add: rota_override_def rota_ABC_def rota_def is_global_holiday_def
        get_member_by_id_def member_A_def member_B_def member_C_def)
  moreover have "get_duty_member 739593 rota_override = Inr (Some member_B)"
    by (simp add: rota_override_def rota_ABC_def rota_def is_global_holiday_def
        get_duty_member_def replay.simps cycle_def scan.simps is_member_away_on_def
        get_member_by_id_def member_A_def member_B_def member_C_def MAXORDINAL_def)
  ultimately show ?thesis by simp
qed

text \<open>
  C5: on a date that is not a holiday and has no override, when every member is away the
  cycle assigns nobody and leaves the pointer as it was, so on such a cadence date the
  resolver returns None and the next pass starts from the same pointer; and when the
  scan assigns a member, that member is the first one, counted circularly from the
  pointer, who is not away, found at an index \<open>idx\<close>, and the pointer becomes
  \<open>(idx + 1) mod len(members)\<close>: one past the assigned member, whatever was skipped.
\<close>

theorem absence_scan_pointer:
  assumes "members st \<noteq> []" "pos < length (members st)"
    and "\<not> is_global_holiday D st" "overrides st D = None"
  shows "((\<forall>m \<in> set (members st). is_member_away_on (m_id m) D st) \<longrightarrow>
            cycle st D pos = Inr (None, pos) \<and>
            (\<forall>k. D = start_date st + 7 * int k \<and> D \<le> MAXORDINAL \<longrightarrow>
                 get_duty_member D st = Inr None \<and> pointer_at st (Suc k) = pointer_at st k)) \<and>
         (\<forall>m p. cycle st D pos = Inr (Some m, p) \<longrightarrow>
            (\<exists>j < length (members st).
               m = members st ! ((pos + j) mod length (members st)) \<and>
               \<not> is_member_away_on (m_id m) D st \<and>
               p = ((pos + j) mod length (members st) + 1) mod length (members st) \<and>
               (\<forall>l<j. is_member_away_on
                         (m_id (members st ! ((pos + l) mod length (members st)))) D st)))"
proof (intro conjI impI allI)
  assume away: "\<forall>m \<in> set (members st). is_member_away_on (m_id m) D st"
  show c: "cycle st D pos = Inr (None, pos)"
    using assms scan_all_away[OF away assms(2), of pos 0] by (simp add: cycle_def)
  fix k assume k: "D = start_date st + 7 * int k \<and> D \<le> MAXORDINAL"
  have "cycle st D (pointer_at st k) = Inr (None, pointer_at st k)"
    using assms scan_all_away[OF away pointer_at_bound[OF assms(1), of k], of "pointer_at st k" 0]
    by (simp add: cycle_def)
  then show "get_duty_member D st = Inr None" "pointer_at st (Suc k) = pointer_at st k"
    using k get_duty_member_cadence[OF assms(1), of k]
    by (simp_all add: assigned_def next_pos_def)
next
  fix m p assume "cycle st D pos = Inr (Some m, p)"
  then have "scan st D pos pos 0 = Inr (Some m, p)"
    using assms by (simp add: cycle_def)
  from scan_found[OF this assms(2)] show "\<exists>j < length (members st).
               m = members st ! ((pos + j) mod length (members st)) \<and>
               \<not> is_member_away_on (m_id m) D st \<and>
               p = ((pos + j) mod length (members st) + 1) mod length (members st) \<and>
               (\<forall>l<j. is_member_away_on
                         (m_id (members st ! ((pos + l) mod length (members st)))) D st)"
    by auto
qed

theorem absence_scan_pointer_witness:
  "cycle rota_all_away 739586 0 = Inr (None, 0) \<and>
   get_duty_member 739586 rota_all_away = Inr None \<and>
   pointer_at rota_all_away (Suc 0) = pointer_at rota_all_away 0 \<and>
   cycle rota_B_away 739593 1 = Inr (Some member_C, 0) \<and>
   (\<exists>j < length (members rota_B_away).
      member_C = members rota_B_away ! ((1 + j) mod length (members rota_B_away)) \<and>
      \<not> is_member_away_on (m_id member_C) 739593 rota_B_away \<and>
      0 = ((1 + j) mod length (members rota_B_away) + 1) mod length (members rota_B_away))"
proof -
  have all_away: "cycle rota_all_away 739586 0 = Inr (None, 0) \<and>
      get_duty_member 739586 rota_all_away = Inr None \<and>
      pointer_at rota_all_away (Suc 0) = pointer_at rota_all_away 0"
    using absence_scan_pointer[of rota_all_away 0 739586]
    by (simp add: rota_all_away_def rota_def is_global_holiday_def is_member_away_on_def
        day_in_range_def member_A_def member_B_def MAXORDINAL_def)
  have found: "cycle rota_B_away 739593 1 = Inr (Some member_C, 0)"
    by (simp add: rota_B_away_def rota_ABC_def rota_def cycle_def is_global_holiday_def
        scan.simps is_member_away_on_def day_in_range_def member_A_def member_B_def member_C_def)
  have hyp: "members rota_B_away \<noteq> []" "1 < length (members rota_B_away)"
    "\<not> is_global_holiday 739593 rota_B_away" "overrides rota_B_away 739593 = None"
    by (simp_all add: rota_B_away_def rota_ABC_def rota_def is_global_holiday_def)
  from absence_scan_pointer[OF hyp] found
  have "\<exists>j < length (members rota_B_away).
      member_C = members rota_B_away ! ((1 + j) mod length (members rota_B_away)) \<and>
      \<not> is_member_away_on (m_id member_C) 739593 rota_B_away \<and>
      0 = ((1 + j) mod length (members rota_B_away) + 1) mod length (members rota_B_away)"
    by blast
  with all_away found show ?thesis by blast
qed

section \<open>Holidays\<close>

text \<open>
  A cycle reads its date only through three tests: is the date a holiday, which override
  it has, and which members are away on it.
\<close>

lemma scan_cong:
  "members st' = members st \<Longrightarrow>
   \<forall>m \<in> set (members st). is_member_away_on (m_id m) c' st' = is_member_away_on (m_id m) c st \<Longrightarrow>
   idx < length (members st) \<Longrightarrow>
   scan st' c' pos idx tried = scan st c pos idx tried"
proof (induction st c pos idx tried rule: scan.induct)
  case (1 st c pos idx tried)
  have nxt: "(idx + 1) mod length (members st) < length (members st)"
    using "1.prems" by (intro mod_less_divisor) auto
  have same: "is_member_away_on (m_id (members st ! idx)) c' st'
              = is_member_away_on (m_id (members st ! idx)) c st"
    using "1.prems" by simp
  show ?case
  proof (cases "tried < length (members st) \<and> is_member_away_on (m_id (members st ! idx)) c st")
    case True
    then have "scan st' c' pos ((idx + 1) mod length (members st)) (tried + 1)
             = scan st c pos ((idx + 1) mod length (members st)) (tried + 1)"
      using "1.IH"[OF _ "1.prems"(3) refl _ "1.prems"(1,2) nxt] by simp
    with True same "1.prems" show ?thesis
      by (simp add: scan.simps[of st c pos idx tried] scan.simps[of st' c' pos idx tried])
  next
    case False
    with same "1.prems" show ?thesis
      by (auto simp: scan.simps[of st c pos idx tried] scan.simps[of st' c' pos idx tried])
  qed
qed

lemma cycle_cong:
  assumes "members st' = members st"
    and "is_global_holiday c' st' = is_global_holiday c st"
    and "overrides st' c' = overrides st c"
    and "\<forall>m \<in> set (members st). is_member_away_on (m_id m) c' st' = is_member_away_on (m_id m) c st"
    and "pos < length (members st)"
  shows "cycle st' c' pos = cycle st c pos"
  using assms scan_cong[OF assms(1) assms(4) assms(5), of pos 0]
  by (simp add: cycle_def get_member_by_id_def split: option.splits)

lemma holidays_only_away:
  "is_member_away_on u d (st\<lparr>global_holidays := hs\<rparr>) = is_member_away_on u d st"
  by (simp add: is_member_away_on_def)

lemma pointer_at_other_holidays:
  assumes "members st \<noteq> []"
    and "\<forall>j<k. is_global_holiday (start_date st + 7 * int j) (st\<lparr>global_holidays := hs\<rparr>)
              = is_global_holiday (start_date st + 7 * int j) st"
  shows "j \<le> k \<Longrightarrow> pointer_at (st\<lparr>global_holidays := hs\<rparr>) j = pointer_at st j"
proof (induction j)
  case 0
  then show ?case by simp
next
  case (Suc j)
  then have IH: "pointer_at (st\<lparr>global_holidays := hs\<rparr>) j = pointer_at st j" and j: "j < k"
    by simp_all
  have "cycle (st\<lparr>global_holidays := hs\<rparr>) (start_date st + 7 * int j) (pointer_at st j)
        = cycle st (start_date st + 7 * int j) (pointer_at st j)"
    using assms(2) j pointer_at_bound[OF assms(1), of j]
    by (intro cycle_cong) (simp_all add: holidays_only_away)
  with IH show ?case by (simp add: next_pos_def)
qed

lemma cycle_holiday: "is_global_holiday D st \<Longrightarrow> cycle st D pos = Inr (None, pos)"
  by (simp add: cycle_def)

text \<open>
  C4, as amended: on a cadence date \<open>D\<close> inside a global holiday the resolver returns
  None and the cycle leaves the pointer unchanged. Hence, if \<open>D + 7\<close> is not a holiday,
  and the cycle at \<open>D + 7\<close> sees the same override entry and the same absences of the
  members as the cycle at \<open>D\<close>, the member assigned at \<open>D + 7\<close> is the member who
  would have been assigned at \<open>D\<close> in the configuration whose holidays do not cover
  \<open>D\<close> and cover the same earlier cadence dates.
\<close>

theorem holiday_freeze:
  assumes "D = start_date st + 7 * int k" and "D \<le> MAXORDINAL" and "is_global_holiday D st"
  shows "get_duty_member D st = Inr None \<and>
         cycle st D pos = Inr (None, pos) \<and>
         pointer_at st (Suc k) = pointer_at st k \<and>
         (\<forall>hs. D + 7 \<le> MAXORDINAL \<and> \<not> is_global_holiday (D + 7) st \<and>
               \<not> is_global_holiday D (st\<lparr>global_holidays := hs\<rparr>) \<and>
               (\<forall>j<k. is_global_holiday (start_date st + 7 * int j) (st\<lparr>global_holidays := hs\<rparr>)
                       = is_global_holiday (start_date st + 7 * int j) st) \<and>
               overrides st (D + 7) = overrides st D \<and>
               (\<forall>m \<in> set (members st).
                   is_member_away_on (m_id m) (D + 7) st = is_member_away_on (m_id m) D st)
               \<longrightarrow> get_duty_member (D + 7) st = get_duty_member D (st\<lparr>global_holidays := hs\<rparr>))"
proof (intro conjI allI impI)
  show frozen: "cycle st D pos = Inr (None, pos)" for pos
    using assms(3) by (rule cycle_holiday)
  show same: "pointer_at st (Suc k) = pointer_at st k"
    using frozen[of "pointer_at st k"] assms(1) by (simp add: next_pos_def)
  show "get_duty_member D st = Inr None"
  proof (cases "members st = []")
    case True
    then show ?thesis by (simp add: get_duty_member_def)
  next
    case False
    from get_duty_member_cadence[OF False, of k] assms(1,2) frozen[of "pointer_at st k"]
    show ?thesis by (simp add: assigned_def)
  qed
  fix hs
  let ?st' = "st\<lparr>global_holidays := hs\<rparr>"
  assume h: "D + 7 \<le> MAXORDINAL \<and> \<not> is_global_holiday (D + 7) st \<and>
               \<not> is_global_holiday D ?st' \<and>
               (\<forall>j<k. is_global_holiday (start_date st + 7 * int j) ?st'
                       = is_global_holiday (start_date st + 7 * int j) st) \<and>
               overrides st (D + 7) = overrides st D \<and>
               (\<forall>m \<in> set (members st).
                   is_member_away_on (m_id m) (D + 7) st = is_member_away_on (m_id m) D st)"
  show "get_duty_member (D + 7) st = get_duty_member D ?st'"
  proof (cases "members st = []")
    case True
    then show ?thesis by (simp add: get_duty_member_def)
  next
    case False
    have D7: "D + 7 = start_date st + 7 * int (Suc k)" using assms(1) by simp
    have next_week: "get_duty_member (D + 7) st = Inr (assigned st (D + 7) (pointer_at st k))"
      using get_duty_member_cadence[OF False, of "Suc k"] h same unfolding D7 by simp
    have "pointer_at ?st' k = pointer_at st k"
      using pointer_at_other_holidays[OF False, of k hs k] h by simp
    moreover have "get_duty_member D ?st' = Inr (assigned ?st' D (pointer_at ?st' k))"
      using get_duty_member_cadence[of ?st' k] False assms(1,2) by simp
    ultimately have this_week: "get_duty_member D ?st' = Inr (assigned ?st' D (pointer_at st k))"
      by simp
    have "cycle st (D + 7) (pointer_at st k) = cycle ?st' D (pointer_at st k)"
      using h pointer_at_bound[OF False, of k]
      by (intro cycle_cong) (simp_all add: holidays_only_away)
    with next_week this_week show ?thesis by (simp add: assigned_def)
  qed
qed

theorem holiday_freeze_witness:
  "get_duty_member 739593 rota_holiday = Inr None \<and>
   pointer_at rota_holiday (Suc 1) = pointer_at rota_holiday 1 \<and>
   get_duty_member 739600 rota_holiday = get_duty_member 739593 rota_ABC \<and>
   get_duty_member 739593 rota_ABC = Inr (Some member_B)"
proof -
  have hyp: "739593 = start_date rota_holiday + 7 * int 1" "739593 \<le> MAXORDINAL"
    "is_global_holiday 739593 rota_holiday"
    by (simp_all add: rota_holiday_def rota_ABC_def rota_def MAXORDINAL_def
        is_global_holiday_def day_in_range_def)
  note frozen = holiday_freeze[OF hyp, of 0]
  have without: "rota_holiday\<lparr>global_holidays := []\<rparr> = rota_ABC"
    by (simp add: rota_holiday_def rota_ABC_def rota_def)
  have "739593 + 7 \<le> MAXORDINAL \<and> \<not> is_global_holiday (739593 + 7) rota_holiday \<and>
      \<not> is_global_holiday 739593 (rota_holiday\<lparr>global_holidays := []\<rparr>) \<and>
      (\<forall>j<1. is_global_holiday (start_date rota_holiday + 7 * int j)
                  (rota_holiday\<lparr>global_holidays := []\<rparr>)
                = is_global_holiday (start_date rota_holiday + 7 * int j) rota_holiday) \<and>
      overrides rota_holiday (739593 + 7) = overrides rota_holiday 739593 \<and>
      (\<forall>m \<in> set (members rota_holiday).
          is_member_away_on (m_id m) (739593 + 7) rota_holiday
          = is_member_away_on (m_id m) 739593 rota_holiday)"
    by (simp add: rota_holiday_def rota_ABC_def rota_def MAXORDINAL_def
        is_global_holiday_def day_in_range_def is_member_away_on_def)
  with frozen have "get_duty_member (739593 + 7) rota_holiday
      = get_duty_member 739593 (rota_holiday\<lparr>global_holidays := []\<rparr>)"
    by blast
  then have "get_duty_member 739600 rota_holiday = get_duty_member 739593 rota_ABC"
    by (simp add: without)
  moreover have "get_duty_member 739593 rota_ABC = Inr (Some member_B)"
    by (simp add: rota_ABC_def rota_def get_duty_member_def replay.simps cycle_def
      is_global_holiday_def scan.simps is_member_away_on_def MAXORDINAL_def)
  ultimately show ?thesis using frozen by simp
qed

text \<open>
  The claim as stated fails when the absences on \<open>D\<close> and on \<open>D + 7\<close> differ: A is
  away on the holiday only, so without the holiday B would have served on that date,
  and A serves a week later.
\<close>

theorem holiday_freeze_counterexample:
  "is_global_holiday 739586 rota_holiday_away \<and> \<not> is_global_holiday 739593 rota_holiday_away \<and>
   get_duty_member 739593 rota_holiday_away = Inr (Some member_A) \<and>
   get_duty_member 739586 (rota_holiday_away\<lparr>global_holidays := []\<rparr>) = Inr (Some member_B) \<and>
   member_A \<noteq> member_B"
  by (simp add: rota_holiday_away_def rota_def get_duty_member_def replay.simps cycle_def
      is_global_holiday_def scan.simps is_member_away_on_def MAXORDINAL_def day_in_range_def
      member_A_def member_B_def)

section \<open>Dates off the weekly cadence\<close>

lemma replay_off_cadence:
  "members st \<noteq> [] \<Longrightarrow> pos < length (members st) \<Longrightarrow> 0 < r \<Longrightarrow> r < 7 \<Longrightarrow>
   c + 7 * int n + 7 \<le> MAXORDINAL \<Longrightarrow>
   replay st (c + 7 * int n + r) c pos = Inr None"
proof (induction n arbitrary: c pos)
  case 0
  obtain a p where cy: "cycle st c pos = Inr (a, p)"
    using cycle_total[OF "0.prems"(1,2), of c] by blast
  have "replay st (c + r) (c + 7) p = Inr None"
    using "0.prems" by (simp add: replay.simps[of st "c + r" "c + 7"])
  with cy "0.prems" show ?case
    by (simp add: replay.simps[of st "c + r" c])
next
  case (Suc n)
  obtain a p where cy: "cycle st c pos = Inr (a, p)" and p: "p < length (members st)"
    using cycle_total[OF Suc.prems(1,2), of c] by blast
  define day where "day = c + 7 * int (Suc n) + r"
  have day': "day = (c + 7) + 7 * int n + r" by (simp add: day_def)
  have "replay st day (c + 7) p = Inr None"
    unfolding day' using Suc.prems p by (intro Suc.IH) simp_all
  moreover have "c < day" "c + 7 \<le> MAXORDINAL"
    using Suc.prems by (simp_all add: day_def)
  ultimately have "replay st day c pos = Inr None"
    using cy by (simp add: replay.simps[of st day c])
  then show ?case by (simp add: day_def)
qed

text \<open>
  When the first cadence date after an off-cadence date lies beyond \<^verbatim>\<open>date.max\<close>, the
  loop ends in the \<^verbatim>\<open>OverflowError\<close> of \<^verbatim>\<open>current += timedelta(days=7)\<close>.
\<close>

lemma replay_off_cadence_overflow:
  "members st \<noteq> [] \<Longrightarrow> pos < length (members st) \<Longrightarrow> 0 < r \<Longrightarrow> r < 7 \<Longrightarrow>
   c + 7 * int n + r \<le> MAXORDINAL \<Longrightarrow> MAXORDINAL < c + 7 * int n + 7 \<Longrightarrow>
   replay st (c + 7 * int n + r) c pos = Inl OverflowError"
proof (induction n arbitrary: c pos)
  case 0
  obtain a p where cy: "cycle st c pos = Inr (a, p)"
    using cycle_total[OF "0.prems"(1,2), of c] by blast
  with "0.prems" show ?case
    by (simp add: replay.simps[of st "c + r" c])
next
  case (Suc n)
  obtain a p where cy: "cycle st c pos = Inr (a, p)" and p: "p < length (members st)"
    using cycle_total[OF Suc.prems(1,2), of c] by blast
  define day where "day = c + 7 * int (Suc n) + r"
  have day': "day = (c + 7) + 7 * int n + r" by (simp add: day_def)
  have "replay st day (c + 7) p = Inl OverflowError"
    unfolding day' using Suc.prems p by (intro Suc.IH) simp_all
  moreover have "c < day" "c + 7 \<le> MAXORDINAL"
    using Suc.prems by (simp_all add: day_def)
  ultimately have "replay st day c pos = Inl OverflowError"
    using cy by (simp add: replay.simps[of st day c])
  then show ?case by (simp add: day_def)
qed

lemma off_cadence_overflow:
  assumes "members st \<noteq> []" and "start_date st \<le> d" and "d \<le> MAXORDINAL"
    and "(d - start_date st) mod 7 \<noteq> 0"
    and "MAXORDINAL < d - (d - start_date st) mod 7 + 7"
  shows "get_duty_member d st = Inl OverflowError"
proof -
  define r where "r = (d - start_date st) mod 7"
  define n where "n = nat ((d - start_date st) div 7)"
  have r: "0 < r" "r < 7"
    using assms(4) pos_mod_bound[of 7 "d - start_date st"] pos_mod_sign[of 7 "d - start_date st"]
    by (simp_all add: r_def)
  have "0 \<le> (d - start_date st) div 7" using assms(2) by simp
  then have d: "d = start_date st + 7 * int n + r"
    by (simp add: n_def r_def)
  have "MAXORDINAL < d - r + 7" using assms(5) by (simp only: r_def)
  then have over: "MAXORDINAL < start_date st + 7 * int n + 7"
    using d by simp
  have le: "start_date st + 7 * int n + r \<le> MAXORDINAL" using assms(3) d by simp
  from replay_off_cadence_overflow[OF assms(1) _ r le over, of 0] assms(1)
  have "replay st (start_date st + 7 * int n + r) (start_date st) 0 = Inl OverflowError" by simp
  with d assms(1,2) show ?thesis by (simp add: get_duty_member_def)
qed

text \<open>
  C9, as amended: for a date \<open>d\<close> on or after the start date whose distance from the
  start date is not a multiple of 7 days, the resolver returns None, whatever overrides
  and members there are, provided the first cadence date after \<open>d\<close> is still a date
  (not beyond 9999-12-31).
\<close>

theorem off_cadence_none:
  assumes "start_date st \<le> d" and "(d - start_date st) mod 7 \<noteq> 0"
    and "d - (d - start_date st) mod 7 + 7 \<le> MAXORDINAL"
  shows "get_duty_member d st = Inr None"
proof (cases "members st = []")
  case True
  then show ?thesis by (simp add: get_duty_member_def)
next
  case False
  define r where "r = (d - start_date st) mod 7"
  define n where "n = nat ((d - start_date st) div 7)"
  have r: "0 < r" "r < 7"
    using assms(2) pos_mod_bound[of 7 "d - start_date st"] pos_mod_sign[of 7 "d - start_date st"]
    by (simp_all add: r_def)
  have "0 \<le> (d - start_date st) div 7" using assms(1) by simp
  then have d: "d = start_date st + 7 * int n + r"
    by (simp add: n_def r_def)
  have "d - r + 7 \<le> MAXORDINAL" using assms(3) by (simp only: r_def)
  then have "start_date st + 7 * int n + 7 \<le> MAXORDINAL"
    using d by simp
  from replay_off_cadence[OF False _ r this, of 0] False
  have "replay st (start_date st + 7 * int n + r) (start_date st) 0 = Inr None" by simp
  with d False assms(1) show ?thesis by (simp add: get_duty_member_def)
qed

theorem off_cadence_none_witness:
  "get_duty_member 739590 rota_override = Inr None"
  using off_cadence_none[of rota_override 739590]
  by (simp add: rota_override_def rota_ABC_def rota_def MAXORDINAL_def)

text \<open>
  The claim as stated fails at the end of the calendar: the loop steps past the target
  date by \<^verbatim>\<open>current += timedelta(days=7)\<close>, and beyond \<^verbatim>\<open>date.max\<close> that addition
  raises \<^verbatim>\<open>OverflowError\<close>.
\<close>

theorem off_cadence_counterexample:
  "start_date rota_late \<le> 3652059 \<and> (3652059 - start_date rota_late) mod 7 \<noteq> 0 \<and>
   members rota_late \<noteq> [] \<and> get_duty_member 3652059 rota_late = Inl OverflowError"
  by (simp add: rota_late_def rota_def get_duty_member_def replay.simps cycle_def
      is_global_holiday_def scan.simps is_member_away_on_def MAXORDINAL_def)

section \<open>Properties of the swap coordinator\<close>

lemma display_name_members:
  "members st' = members st \<Longrightarrow> display_name u st' = display_name u st"
  by (simp add: display_name_def get_member_by_id_def)

lemma volunteer_callback_accept:
  assumes "get_member_by_id v st = Some vm" "overrides st d = None"
  shows "volunteer_callback st d a v
         = Inr (Replaced d (display_name a st) (m_label vm),
                st\<lparr>overrides := (overrides st)(d \<mapsto> v),
                   penalties := (penalties st)(a \<mapsto> penalty_count st a + 1)\<rparr>)"
  using assms
  by (cases "penalties st a")
     (simp_all add: volunteer_callback_def ensure_penalty_entry_def penalty_count_def
        get_member_by_id_def display_name_def)

lemma volunteer_callback_taken:
  assumes "overrides st d = Some w"
  shows "volunteer_callback st d a v
         = Inr (if get_member_by_id v st = None then NotInList
                else AlreadyAgreed d (display_name w st), st)"
  using assms by (simp add: volunteer_callback_def split: option.splits)

text \<open>
  C6: when the date has no override and the volunteer is a member, the callback records
  the override \<open>date \<mapsto> volunteer_id\<close> and raises the absent member's penalty count by
  exactly 1 (a missing entry counts as 0 and becomes 1). In the state it leaves, a second
  callback for the same date by any member is answered "already agreed" with the first
  volunteer's name, and a callback by a non-member is answered "not in the list"; in
  both cases the state, so the override entry and the penalty count, stays as it is.
\<close>

theorem swap_ledger:
  assumes "overrides st d = None" and "get_member_by_id v st = Some vm"
  shows "\<exists>st'. volunteer_callback st d a v = Inr (Replaced d (display_name a st) (m_label vm), st') \<and>
           st' = st\<lparr>overrides := (overrides st)(d \<mapsto> v),
                     penalties := (penalties st)(a \<mapsto> penalty_count st a + 1)\<rparr> \<and>
           overrides st' d = Some v \<and>
           penalty_count st' a = penalty_count st a + 1 \<and>
           (\<forall>a2 v2. get_member_by_id v2 st \<noteq> None \<longrightarrow>
              volunteer_callback st' d a2 v2 = Inr (AlreadyAgreed d (Label (m_label vm)), st')) \<and>
           (\<forall>a2 v2. get_member_by_id v2 st = None \<longrightarrow>
              volunteer_callback st' d a2 v2 = Inr (NotInList, st'))"
proof -
  define st' where "st' = st\<lparr>overrides := (overrides st)(d \<mapsto> v),
                     penalties := (penalties st)(a \<mapsto> penalty_count st a + 1)\<rparr>"
  have mem: "get_member_by_id u st' = get_member_by_id u st" for u
    by (simp add: st'_def get_member_by_id_def)
  have taken: "overrides st' d = Some v" by (simp add: st'_def)
  have first: "volunteer_callback st d a v = Inr (Replaced d (display_name a st) (m_label vm), st')"
    unfolding st'_def using assms by (intro volunteer_callback_accept)
  have count: "penalty_count st' a = penalty_count st a + 1"
    by (simp add: st'_def penalty_count_def)
  have who: "display_name v st' = Label (m_label vm)"
    using assms(2) by (simp add: display_name_def mem)
  have second: "volunteer_callback st' d a2 v2
         = Inr (if get_member_by_id v2 st = None then NotInList
                else AlreadyAgreed d (Label (m_label vm)), st')" for a2 v2
    using volunteer_callback_taken[OF taken, of a2 v2] by (simp add: mem who)
  show ?thesis
    using first taken count second by (intro exI[of _ st']) (simp add: st'_def[symmetric])
qed

theorem swap_ledger_witness:
  "volunteer_callback rota_ABC 739586 1 2 = Inr (Replaced 739586 (Label ''A'') ''B'', rota_swapped) \<and>
   overrides rota_swapped 739586 = Some 2 \<and>
   penalty_count rota_swapped 1 = penalty_count rota_ABC 1 + 1 \<and>
   volunteer_callback rota_swapped 739586 1 3 = Inr (AlreadyAgreed 739586 (Label ''B''), rota_swapped) \<and>
   volunteer_callback rota_swapped 739586 1 99 = Inr (NotInList, rota_swapped)"
proof -
  have hyp: "overrides rota_ABC 739586 = None" "get_member_by_id 2 rota_ABC = Some member_B"
    by (simp_all add: rota_ABC_def rota_def get_member_by_id_def member_A_def member_B_def)
  have st': "rota_ABC\<lparr>overrides := (overrides rota_ABC)(739586 \<mapsto> 2),
                     penalties := (penalties rota_ABC)(1 \<mapsto> penalty_count rota_ABC 1 + 1)\<rparr>
             = rota_swapped"
    by (simp add: rota_swapped_def rota_ABC_def rota_def penalty_count_def)
  have who: "display_name 1 rota_ABC = Label ''A''" "m_label member_B = ''B''"
    "get_member_by_id 3 rota_ABC = Some member_C" "get_member_by_id 99 rota_ABC = None"
    by (simp_all add: display_name_def rota_ABC_def rota_def get_member_by_id_def
        member_A_def member_B_def member_C_def)
  from swap_ledger[OF hyp, of 1] show ?thesis
    unfolding st' who(1,2) using who(3,4) by auto
qed

text \<open>
  C10: the callback does not compare the volunteer with the absent member. When the
  absent member presses the button themself, is a member, and the date has no override,
  the override names the absent member and their own penalty count rises by 1.
\<close>

theorem volunteer_may_be_absent_member:
  assumes "get_member_by_id a st = Some m" and "overrides st d = None"
  shows "volunteer_callback st d a a
         = Inr (Replaced d (Label (m_label m)) (m_label m),
                st\<lparr>overrides := (overrides st)(d \<mapsto> a),
                   penalties := (penalties st)(a \<mapsto> penalty_count st a + 1)\<rparr>)"
  using volunteer_callback_accept[OF assms, of a] assms(1) by (simp add: display_name_def)

theorem volunteer_may_be_absent_member_witness:
  "volunteer_callback rota_ABC 739586 1 1
   = Inr (Replaced 739586 (Label ''A'') ''A'',
          rota_ABC\<lparr>overrides := [739586 \<mapsto> 1], penalties := [1 \<mapsto> 1]\<rparr>)"
  using volunteer_may_be_absent_member[of 1 rota_ABC member_A 739586]
  by (simp add: rota_ABC_def rota_def get_member_by_id_def member_A_def penalty_count_def)

end
